theory Spec2Isabelle
  imports Main "HOL-Library.AList"
begin

section \<open>The mock relay of agent-test-kit (src/relay.cjs)\<close>

text \<open>
  The relay keeps two tables, \<open>events\<close> (id to event) and \<open>subscriptions\<close>
  (connection to subscription id to filter list). Both are JavaScript \<open>Map\<close>s, which
  iterate in insertion order, so both are association lists here. An event and a filter
  are plain objects: a property that may be missing is an \<open>option\<close>, and a falsy test
  in the source (\<open>filter.since && ...\<close>) is written out as what it tests. An event
  always carries its \<open>tags\<close> array, as \<open>NostrEvent\<close> declares (index.d.cts): what the
  relay does with an object that has none is outside this theory.
\<close>

subsection \<open>Events and filters\<close>

record nostr_event =
  id_ev :: "string option"
  pubkey :: "string option"
  kind :: "int option"
  created_at :: int
  tags :: "string list list"
  content :: string

text \<open>
  A filter object: the six named properties, and \<open>entries\<close>, its other own properties
  (the tag constraints \<open>#e\<close>, \<open>#p\<close> and whatever else the object carries), each with
  its array of values. \<open>Object.entries(filter)\<close> also yields the six named properties;
  none of their names starts with \<open>#\<close>, so the loop skips them.
\<close>

record nostr_filter =
  ids :: "string list option"
  authors :: "string list option"
  kinds :: "int list option"
  since :: "int option"
  until :: "int option"
  limit :: "int option"
  entries :: "(string \<times> string list) list"

text \<open>\<open>t[i]\<close> on an array: \<open>undefined\<close> out of range.\<close>

definition nth_opt :: "'a list \<Rightarrow> nat \<Rightarrow> 'a option" where
  "nth_opt xs i = (if i < length xs then Some (xs ! i) else None)"

text \<open>\<open>xs.includes(v)\<close>, where \<open>v\<close> may be \<open>undefined\<close> and \<open>xs\<close> holds none.\<close>

definition includes_in :: "'a list \<Rightarrow> 'a option \<Rightarrow> bool" where
  "includes_in xs v = (case v of None \<Rightarrow> False | Some x \<Rightarrow> x \<in> set xs)"

definition startsWith :: "string \<Rightarrow> string \<Rightarrow> bool" where
  "startsWith s p = (take (length p) s = p)"

text \<open>
  The values of the event's tags named \<open>tagName\<close>:
  \<open>event.tags.filter(t => t[0] === tagName).map(t => t[1])\<close>.
\<close>

definition eventTagValues :: "nostr_event \<Rightarrow> string \<Rightarrow> string option list" where
  "eventTagValues event tagName =
     map (\<lambda>t. nth_opt t 1) (filter (\<lambda>t. nth_opt t 0 = Some tagName) (tags event))"

text \<open>
  The loop over \<open>Object.entries(filter)\<close> of \<open>matchesFilter\<close>, lines 45 to 53: an
  entry counts when its key starts with \<open>#\<close> and has length 2, the tag name is the
  key's second character, and the first entry that no value satisfies returns false.
\<close>

fun tagFilters :: "nostr_event \<Rightarrow> (string \<times> string list) list \<Rightarrow> bool" where
  "tagFilters event [] = True"
| "tagFilters event ((key, values) # rest) =
     (if startsWith key ''#'' \<and> length key = 2 then
        (if list_ex (\<lambda>v. Some v \<in> set (eventTagValues event [key ! 1])) values
         then tagFilters event rest else False)
      else tagFilters event rest)"

text \<open>
  \<open>matchesFilter\<close>, lines 37 to 56. \<open>filter.ids && ...\<close> tests an array, which is
  truthy whenever present; \<open>filter.since && ...\<close> and \<open>filter.until && ...\<close> test a
  number, which is truthy when present and not 0.
\<close>

definition matchesFilter :: "nostr_event \<Rightarrow> nostr_filter \<Rightarrow> bool" where
  "matchesFilter event f =
     (if (case ids f of None \<Rightarrow> False | Some xs \<Rightarrow> \<not> includes_in xs (id_ev event)) then False
      else if (case authors f of None \<Rightarrow> False | Some xs \<Rightarrow> \<not> includes_in xs (pubkey event))
        then False
      else if (case kinds f of None \<Rightarrow> False | Some xs \<Rightarrow> \<not> includes_in xs (kind event))
        then False
      else if (case since f of None \<Rightarrow> False | Some s \<Rightarrow> s \<noteq> 0 \<and> created_at event < s)
        then False
      else if (case until f of None \<Rightarrow> False | Some u \<Rightarrow> u \<noteq> 0 \<and> created_at event > u)
        then False
      else tagFilters event (entries f))"

text \<open>\<open>matchesFilters\<close>, lines 61 to 63: \<open>filters.some(f => matchesFilter(event, f))\<close>.\<close>

definition matchesFilters :: "nostr_event \<Rightarrow> nostr_filter list \<Rightarrow> bool" where
  "matchesFilters event filters = list_ex (matchesFilter event) filters"

text \<open>The filter \<open>{}\<close>.\<close>

definition emptyFilter :: nostr_filter where
  "emptyFilter = \<lparr>ids = None, authors = None, kinds = None, since = None, until = None,
     limit = None, entries = []\<rparr>"

subsection \<open>The event store\<close>

text \<open>
  \<open>events\<close> is a \<open>Map\<close> from id to event. \<open>has\<close>, \<open>set\<close> and \<open>delete\<close> are
  membership of the key, \<open>AList.update\<close> (an existing key keeps its place, a new one
  goes last) and \<open>AList.delete\<close>.
\<close>

type_synonym store = "(string option \<times> nostr_event) list"

definition has :: "('k \<times> 'v) list \<Rightarrow> 'k \<Rightarrow> bool" where
  "has m k = (k \<in> set (map fst m))"

text \<open>
  A number and a possibly missing string inside a template literal. \<open>decimal\<close> gives
  the digits of a number that is not negative.
\<close>

function decimal :: "int \<Rightarrow> string" where
  "decimal n =
     (if n < 10 then [char_of (48 + n)] else decimal (n div 10) @ [char_of (48 + n mod 10)])"
  by pat_completeness auto
termination
  by (relation "measure nat") auto

definition showInt :: "int \<Rightarrow> string" where
  "showInt k = (if k < 0 then ''-'' @ decimal (- k) else decimal k)"

definition showStr :: "string option \<Rightarrow> string" where
  "showStr v = (case v of None \<Rightarrow> ''undefined'' | Some x \<Rightarrow> x)"

text \<open>
  \<open>replaceableKey\<close>, lines 68 to 77. A missing \<open>kind\<close> fails every comparison, so
  the result is \<open>null\<close>. \<open>dTag\<close> is the first tag named \<open>d\<close>.
\<close>

definition replaceableKey :: "nostr_event \<Rightarrow> string option" where
  "replaceableKey event =
     (case kind event of
        None \<Rightarrow> None
      | Some k \<Rightarrow>
          if k \<ge> 30000 \<and> k < 40000 then
            Some (showInt k @ '':'' @ showStr (pubkey event) @ '':'' @
              (case find (\<lambda>t. nth_opt t 0 = Some ''d'') (tags event) of
                 None \<Rightarrow> []
               | Some dTag \<Rightarrow> showStr (nth_opt dTag 1)))
          else if k = 0 \<or> k = 3 \<or> (k \<ge> 10000 \<and> k < 20000) then
            Some (showInt k @ '':'' @ showStr (pubkey event))
          else None)"

text \<open>
  The loop of \<open>storeEvent\<close>, lines 87 to 91: it visits every entry of \<open>events\<close> and
  deletes, by its id, each one that has the key \<open>rKey\<close> and is not newer than \<open>event\<close>
  (\<open>notNewer\<close> is the test of line 88). Deleting the entry being visited does not
  disturb the iteration of a \<open>Map\<close>.
\<close>

definition notNewer :: "string \<Rightarrow> nostr_event \<Rightarrow> nostr_event \<Rightarrow> bool" where
  "notNewer rKey event existing =
     (replaceableKey existing = Some rKey \<and> created_at existing \<le> created_at event)"

definition removeOlder :: "string \<Rightarrow> nostr_event \<Rightarrow> store \<Rightarrow> store" where
  "removeOlder rKey event events =
     fold (\<lambda>(id, existing) m. if notNewer rKey event existing then AList.delete id m else m)
       events events"

text \<open>
  \<open>storeEvent\<close>, lines 82 to 101: the new store and the returned boolean. \<open>if (rKey)\<close>
  tests a string or \<open>null\<close>: truthy when it is a string that is not empty.
\<close>

definition storeEvent :: "nostr_event \<Rightarrow> store \<Rightarrow> bool \<times> store" where
  "storeEvent event events =
     (let rKey = replaceableKey event;
          events1 = (case rKey of
                       None \<Rightarrow> events
                     | Some k \<Rightarrow> if k = [] then events else removeOlder k event events)
      in if has events1 (id_ev event) then (False, events1)
         else (True, AList.update (id_ev event) event events1))"

subsection \<open>The relay, its connections and what it sends\<close>

type_synonym conn = nat

datatype relay_msg =
    NOTICE string
  | OK string bool string
  | EVENT_sub string nostr_event
  | EOSE string

text \<open>
  What \<open>JSON.parse(data)\<close> and the dispatch on \<open>msg[0]\<close> tell apart: text that is not
  JSON, a value that is not an array of two elements or more, the three verbs, and any
  other first element. The payload of \<open>EVENT\<close> is \<open>None\<close> when \<open>msg[1]\<close> is falsy.
\<close>

datatype client_msg =
    BadJSON
  | BadFormat
  | EVENT_pub "nostr_event option"
  | REQ string "nostr_filter list"
  | CLOSE string
  | Other string

text \<open>
  The state: the two tables of the relay, and of the transport the messages sent so far
  (\<open>wire\<close>, oldest first, each with the connection it went to) and the state of the
  sockets. \<open>send\<close> is the method of the \<open>ws\<close> library: on a socket that is closing
  or closed (\<open>closed\<close>) it returns and nothing is sent; it throws on a socket that is
  still connecting, which a socket handed out by a \<open>WebSocketServer\<close> never is, so
  that \<open>throwing\<close> is empty whenever every connection came from the server of line 196.
  \<open>throwing\<close> is there for what the \<open>try\<close>/\<open>catch\<close> of \<open>inject\<close> guards against.
\<close>

record relay =
  events :: store
  subscriptions :: "(conn \<times> (string \<times> nostr_filter list) list) list"
  wire :: "(conn \<times> relay_msg) list"
  closed :: "conn list"
  throwing :: "conn list"

text \<open>A call returns or throws; the state it leaves behind is there either way.\<close>

datatype outcome = Returned | Threw

definition send :: "conn \<Rightarrow> relay_msg \<Rightarrow> relay \<Rightarrow> outcome \<times> relay" where
  "send ws m s =
     (if ws \<in> set (throwing s) then (Threw, s)
      else if ws \<in> set (closed s) then (Returned, s)
      else (Returned, s\<lparr>wire := wire s @ [(ws, m)]\<rparr>))"

text \<open>
  The broadcast of \<open>handleMessage\<close>, lines 136 to 142: nothing catches a \<open>send\<close> that
  throws, so the exception leaves both loops.
\<close>

fun sendToSubs ::
  "nostr_event \<Rightarrow> conn \<Rightarrow> (string \<times> nostr_filter list) list \<Rightarrow> relay \<Rightarrow> outcome \<times> relay" where
  "sendToSubs event subWs [] s = (Returned, s)"
| "sendToSubs event subWs ((subId, filters) # rest) s =
     (if matchesFilters event filters then
        (case send subWs (EVENT_sub subId event) s of
           (Threw, s') \<Rightarrow> (Threw, s')
         | (Returned, s') \<Rightarrow> sendToSubs event subWs rest s')
      else sendToSubs event subWs rest s)"

fun broadcast ::
  "nostr_event \<Rightarrow> (conn \<times> (string \<times> nostr_filter list) list) list \<Rightarrow> relay \<Rightarrow> outcome \<times> relay"
  where
  "broadcast event [] s = (Returned, s)"
| "broadcast event ((subWs, subs) # rest) s =
     (case sendToSubs event subWs subs s of
        (Threw, s') \<Rightarrow> (Threw, s')
      | (Returned, s') \<Rightarrow> broadcast event rest s')"

text \<open>
  The broadcast of \<open>inject\<close>, lines 244 to 252: each \<open>send\<close> sits in its own
  \<open>try\<close>/\<open>catch\<close>, so the loops go on whatever it does.
\<close>

fun sendToSubsCaught ::
  "nostr_event \<Rightarrow> conn \<Rightarrow> (string \<times> nostr_filter list) list \<Rightarrow> relay \<Rightarrow> relay" where
  "sendToSubsCaught event subWs [] s = s"
| "sendToSubsCaught event subWs ((subId, filters) # rest) s =
     (if matchesFilters event filters then
        sendToSubsCaught event subWs rest (snd (send subWs (EVENT_sub subId event) s))
      else sendToSubsCaught event subWs rest s)"

fun broadcastCaught ::
  "nostr_event \<Rightarrow> (conn \<times> (string \<times> nostr_filter list) list) list \<Rightarrow> relay \<Rightarrow> relay" where
  "broadcastCaught event [] s = s"
| "broadcastCaught event ((subWs, subs) # rest) s =
     broadcastCaught event rest (sendToSubsCaught event subWs subs s)"

text \<open>\<open>inject\<close>, lines 240 to 255.\<close>

definition inject :: "nostr_event \<Rightarrow> relay \<Rightarrow> bool \<times> relay" where
  "inject event s =
     (let (isNew, events1) = storeEvent event (events s);
          s1 = s\<lparr>events := events1\<rparr>
      in if isNew then (isNew, broadcastCaught event (subscriptions s1) s1) else (isNew, s1))"

subsection \<open>The EVENT verb\<close>

text \<open>
  Line 125: \<open>!event || !event.id || !event.pubkey || !event.kind === undefined\<close>.
  \<open>!\<close> binds tighter than \<open>===\<close>, so the last disjunct compares the boolean
  \<open>!event.kind\<close> with \<open>undefined\<close>. A missing string and the empty string are falsy;
  a missing number and 0 are falsy.
\<close>

datatype js_value = Undefined | Boolean bool

definition falsyStr :: "string option \<Rightarrow> bool" where
  "falsyStr v = (case v of None \<Rightarrow> True | Some x \<Rightarrow> x = [])"

definition falsyNum :: "int option \<Rightarrow> bool" where
  "falsyNum v = (case v of None \<Rightarrow> True | Some n \<Rightarrow> n = 0)"

definition invalidEvent :: "nostr_event option \<Rightarrow> bool" where
  "invalidEvent ev =
     (case ev of
        None \<Rightarrow> True
      | Some event \<Rightarrow>
          falsyStr (id_ev event) \<or> falsyStr (pubkey event) \<or>
          Boolean (falsyNum (kind event)) = Undefined)"

text \<open>\<open>event?.id || ''\<close>, line 126.\<close>

definition idOrEmpty :: "nostr_event option \<Rightarrow> string" where
  "idOrEmpty ev =
     (case ev of
        None \<Rightarrow> []
      | Some event \<Rightarrow> (case id_ev event of None \<Rightarrow> [] | Some i \<Rightarrow> i))"

text \<open>
  The \<open>EVENT\<close> case of \<open>handleMessage\<close>, lines 123 to 145. On line 131 \<open>event.id\<close>
  is a string that is not empty, the check of line 125 having passed.
\<close>

definition handleEVENT :: "conn \<Rightarrow> nostr_event option \<Rightarrow> relay \<Rightarrow> outcome \<times> relay" where
  "handleEVENT ws ev s =
     (if invalidEvent ev then send ws (OK (idOrEmpty ev) False ''Invalid event'') s
      else
        (case ev of
           None \<Rightarrow> (Returned, s)
         | Some event \<Rightarrow>
             (let (isNew, events1) = storeEvent event (events s);
                  s1 = s\<lparr>events := events1\<rparr>
              in case send ws (OK (idOrEmpty ev) True []) s1 of
                   (Threw, s2) \<Rightarrow> (Threw, s2)
                 | (Returned, s2) \<Rightarrow>
                     if isNew then broadcast event (subscriptions s2) s2 else (Returned, s2))))"

subsection \<open>The REQ and CLOSE verbs\<close>

text \<open>
  Lines 151 to 154: \<open>subscriptions.get(ws)\<close>, created empty when the connection has
  none, gets \<open>subId\<close> set to \<open>filters\<close>.
\<close>

definition register ::
  "conn \<Rightarrow> string \<Rightarrow> nostr_filter list \<Rightarrow> (conn \<times> (string \<times> nostr_filter list) list) list
     \<Rightarrow> (conn \<times> (string \<times> nostr_filter list) list) list" where
  "register ws subId filters subs =
     (let subs1 = (if has subs ws then subs else AList.update ws [] subs)
      in case map_of subs1 ws of
           None \<Rightarrow> subs1
         | Some m \<Rightarrow> AList.update ws (AList.update subId filters m) subs1)"

text \<open>
  A JavaScript number that may be \<open>Infinity\<close>, with \<open>Math.max\<close>, and the limit of
  line 160: \<open>filters.reduce((max, f) => Math.max(max, f.limit || Infinity), 0)\<close>.
  \<open>f.limit || Infinity\<close> is \<open>Infinity\<close> when the limit is missing and when it is 0.
\<close>

datatype js_number = Fin int | Infinity

fun mathMax :: "js_number \<Rightarrow> js_number \<Rightarrow> js_number" where
  "mathMax (Fin a) (Fin b) = Fin (max a b)"
| "mathMax _ _ = Infinity"

definition limitOrInfinity :: "nostr_filter \<Rightarrow> js_number" where
  "limitOrInfinity f =
     (case limit f of None \<Rightarrow> Infinity | Some l \<Rightarrow> if l = 0 then Infinity else Fin l)"

definition replayLimit :: "nostr_filter list \<Rightarrow> js_number" where
  "replayLimit filters = foldl (\<lambda>m f. mathMax m (limitOrInfinity f)) (Fin 0) filters"

text \<open>
  Lines 162 and 163: the stored events, sorted by \<open>b.created_at - a.created_at\<close>.
  \<open>Array.prototype.sort\<close> is stable, and so is \<open>sort_key\<close>.
\<close>

definition sortedNewestFirst :: "store \<Rightarrow> nostr_event list" where
  "sortedNewestFirst evs = sort_key (\<lambda>e. - created_at e) (map snd evs)"

text \<open>
  \<open>count >= limit\<close> of line 169, tested when \<open>limit !== Infinity\<close>.
\<close>

fun reached :: "js_number \<Rightarrow> int \<Rightarrow> bool" where
  "reached Infinity count = False"
| "reached (Fin l) count = (count \<ge> l)"

text \<open>
  The loop of lines 165 to 171, \<open>count\<close> being the number of events sent so far:
  the test of the limit comes after the event is sent and counted.
\<close>

fun replay ::
  "conn \<Rightarrow> string \<Rightarrow> nostr_filter list \<Rightarrow> js_number \<Rightarrow> int \<Rightarrow> nostr_event list \<Rightarrow> relay
     \<Rightarrow> outcome \<times> relay" where
  "replay ws subId filters lim count [] s = (Returned, s)"
| "replay ws subId filters lim count (event # rest) s =
     (if matchesFilters event filters then
        (case send ws (EVENT_sub subId event) s of
           (Threw, s') \<Rightarrow> (Threw, s')
         | (Returned, s') \<Rightarrow>
             if reached lim (count + 1) then (Returned, s')
             else replay ws subId filters lim (count + 1) rest s')
      else replay ws subId filters lim count rest s)"

text \<open>The \<open>REQ\<close> case, lines 147 to 176.\<close>

definition handleREQ :: "conn \<Rightarrow> string \<Rightarrow> nostr_filter list \<Rightarrow> relay \<Rightarrow> outcome \<times> relay" where
  "handleREQ ws subId filters s =
     (let s1 = s\<lparr>subscriptions := register ws subId filters (subscriptions s)\<rparr>
      in case replay ws subId filters (replayLimit filters) 0 (sortedNewestFirst (events s1)) s1 of
           (Threw, s2) \<Rightarrow> (Threw, s2)
         | (Returned, s2) \<Rightarrow> send ws (EOSE subId) s2)"

text \<open>The \<open>CLOSE\<close> case, lines 178 to 184.\<close>

definition handleCLOSE :: "conn \<Rightarrow> string \<Rightarrow> relay \<Rightarrow> outcome \<times> relay" where
  "handleCLOSE ws subId s =
     (case map_of (subscriptions s) ws of
        None \<Rightarrow> (Returned, s)
      | Some subs \<Rightarrow>
          (Returned,
           s\<lparr>subscriptions := AList.update ws (AList.delete subId subs) (subscriptions s)\<rparr>))"

text \<open>\<open>handleMessage\<close>, lines 106 to 189.\<close>

fun handleMessage :: "conn \<Rightarrow> client_msg \<Rightarrow> relay \<Rightarrow> outcome \<times> relay" where
  "handleMessage ws BadJSON s = send ws (NOTICE ''Invalid JSON'') s"
| "handleMessage ws BadFormat s = send ws (NOTICE ''Invalid message format'') s"
| "handleMessage ws (EVENT_pub ev) s = handleEVENT ws ev s"
| "handleMessage ws (REQ subId filters) s = handleREQ ws subId filters s"
| "handleMessage ws (CLOSE subId) s = handleCLOSE ws subId s"
| "handleMessage ws (Other type) s = send ws (NOTICE (''Unknown message type: '' @ type)) s"

subsection \<open>The test-harness surface\<close>

text \<open>\<open>getEvents\<close>, lines 260 to 264, and \<open>clear\<close>, lines 269 to 271.\<close>

definition getEvents :: "nostr_filter option \<Rightarrow> relay \<Rightarrow> nostr_event list" where
  "getEvents fo s =
     (let all = map snd (events s)
      in case fo of None \<Rightarrow> all | Some f \<Rightarrow> filter (\<lambda>e. matchesFilter e f) all)"

definition clear :: "relay \<Rightarrow> relay" where
  "clear s = s\<lparr>events := []\<rparr>"

text \<open>A relay just created, with no socket closed.\<close>

definition newRelay :: relay where
  "newRelay = \<lparr>events = [], subscriptions = [], wire = [], closed = [], throwing = []\<rparr>"

subsection \<open>What the specification says\<close>

text \<open>
  The specification's reading of a named tag constraint, to compare \<open>tagFilters\<close> with:
  the event has a tag whose first element is the name and whose second element is one
  of the values.
\<close>

definition tagSatisfied :: "nostr_event \<Rightarrow> string \<Rightarrow> string list \<Rightarrow> bool" where
  "tagSatisfied event name values =
     list_ex (\<lambda>t. nth_opt t 0 = Some name \<and> list_ex (\<lambda>v. nth_opt t 1 = Some v) values)
       (tags event)"

text \<open>
  The specification's reading of the backlog of a subscription: the stored events that
  match its filters, newest first, and the largest limit its filters declare.
\<close>

definition matching :: "nostr_filter list \<Rightarrow> relay \<Rightarrow> nostr_event list" where
  "matching filters s = filter (\<lambda>e. matchesFilters e filters) (sortedNewestFirst (events s))"

definition largestLimit :: "nostr_filter list \<Rightarrow> int" where
  "largestLimit filters = Max (set (0 # List.map_filter limit filters))"

text \<open>
  The deliveries that accepting \<open>event\<close> owes to a subscription table: one for each
  subscription that matches, in the order of the table.
\<close>

definition deliveries ::
  "nostr_event \<Rightarrow> (conn \<times> (string \<times> nostr_filter list) list) list \<Rightarrow> (conn \<times> relay_msg) list"
  where
  "deliveries event subs =
     concat (map (\<lambda>(subWs, m).
        map (\<lambda>(subId, filters). (subWs, EVENT_sub subId event))
          (filter (\<lambda>(subId, filters). matchesFilters event filters) m)) subs)"

text \<open>
  The messages among \<open>ms\<close> that reach their connection: those for a socket that is
  neither closed nor throwing. Whether a message is among them depends on its own
  connection and on no other.
\<close>

definition reaching :: "relay \<Rightarrow> (conn \<times> relay_msg) list \<Rightarrow> (conn \<times> relay_msg) list" where
  "reaching s ms = filter (\<lambda>(c, m). c \<notin> set (throwing s) \<and> c \<notin> set (closed s)) ms"

subsection \<open>Example events, filters and relays\<close>

text \<open>
  Two versions of one marketplace task (kind 30950, the same author and \<open>d\<close> tag), as
  in the test "handles parameterized replaceable events", and the filter that selects
  their replaceable key.
\<close>

definition task_v1 :: nostr_event where
  "task_v1 = \<lparr>id_ev = Some ''aa'', pubkey = Some ''alice'', kind = Some 30950,
     created_at = 1000, tags = [[''d'', ''task-1''], [''status'', ''open'']], content = []\<rparr>"

definition task_v2 :: nostr_event where
  "task_v2 = \<lparr>id_ev = Some ''bb'', pubkey = Some ''alice'', kind = Some 30950,
     created_at = 2000, tags = [[''d'', ''task-1''], [''status'', ''claimed'']], content = []\<rparr>"

definition taskFilter :: nostr_filter where
  "taskFilter = emptyFilter\<lparr>authors := Some [''alice''], kinds := Some [30950],
     entries := [(''#d'', [''task-1''])]\<rparr>"

text \<open>A profile (kind 0, replaceable), a text note (kind 1, regular), and an object with
  an id and a pubkey but no kind.\<close>

definition profile :: nostr_event where
  "profile = \<lparr>id_ev = Some ''cc'', pubkey = Some ''alice'', kind = Some 0,
     created_at = 1500, tags = [], content = ''about''\<rparr>"

definition textNote :: nostr_event where
  "textNote = \<lparr>id_ev = Some ''dd'', pubkey = Some ''bob'', kind = Some 1,
     created_at = 1700, tags = [[''p'', ''alice'']], content = ''hello''\<rparr>"

definition kindless :: nostr_event where
  "kindless = \<lparr>id_ev = Some ''ee'', pubkey = Some ''bob'', kind = None,
     created_at = 1800, tags = [], content = ''no kind''\<rparr>"

text \<open>
  A relay with two subscribers to kind 1, connection 1 first and connection 2 second,
  where the socket of connection 1 is closed; connection 3 is the submitter. The same
  relay with a socket of connection 1 that throws on \<open>send\<close> instead.
\<close>

definition twoSubscribers :: relay where
  "twoSubscribers = \<lparr>events = [],
     subscriptions = [(1, [(''a'', [emptyFilter\<lparr>kinds := Some [1]\<rparr>])]),
                      (2, [(''b'', [emptyFilter\<lparr>kinds := Some [1]\<rparr>])])],
     wire = [], closed = [1], throwing = []\<rparr>"

definition firstThrows :: relay where
  "firstThrows = twoSubscribers\<lparr>closed := [], throwing := [1]\<rparr>"

section \<open>Properties of the filter predicate\<close>

subsection \<open>Tag constraints\<close>

lemma in_eventTagValues:
  "Some v \<in> set (eventTagValues event name) \<longleftrightarrow>
     (\<exists>t \<in> set (tags event). nth_opt t 0 = Some name \<and> nth_opt t 1 = Some v)"
  by (force simp: eventTagValues_def)

lemma list_ex_tag_values:
  "list_ex (\<lambda>v. Some v \<in> set (eventTagValues event name)) values = tagSatisfied event name values"
  unfolding tagSatisfied_def list_ex_iff in_eventTagValues by blast

text \<open>One turn of the loop: an entry is a conjunct, true when its key is not a tag key.\<close>

lemma tagFilters_Cons:
  "tagFilters event ((key, values) # es) =
     ((if startsWith key ''#'' \<and> length key = 2 then tagSatisfied event [key ! 1] values else True)
      \<and> tagFilters event es)"
  by (simp add: list_ex_tag_values)

lemma tagFilters_append:
  "tagFilters event (es1 @ es2) = (tagFilters event es1 \<and> tagFilters event es2)"
proof (induction es1)
  case Nil
  show ?case by simp
next
  case (Cons p es1)
  obtain key vals where p: "p = (key, vals)" by (cases p)
  show ?case unfolding p append_Cons tagFilters_Cons Cons.IH by blast
qed

lemma tagFilters_all:
  "tagFilters event (map (\<lambda>(c, vs). ([CHR ''#'', c], vs)) cs) =
     list_all (\<lambda>(c, vs). tagSatisfied event [c] vs) cs"
proof (induction cs)
  case Nil
  show ?case by simp
next
  case (Cons p cs)
  obtain c vs where p: "p = (c, vs)" by (cases p)
  have "startsWith [CHR ''#'', c] ''#''" by (simp add: startsWith_def)
  then show ?case unfolding p using Cons.IH by (simp add: tagFilters_Cons del: tagFilters.simps(2))
qed

lemma matchesFilter_entries:
  "matchesFilter event (f\<lparr>entries := es\<rparr>) =
     (matchesFilter event (f\<lparr>entries := []\<rparr>) \<and> tagFilters event es)"
  by (simp add: matchesFilter_def)

lemma matchesFilter_tags_only:
  "matchesFilter event (emptyFilter\<lparr>entries := es\<rparr>) = tagFilters event es"
  by (simp add: matchesFilter_def emptyFilter_def)

lemma tagFilters_list_all:
  "tagFilters event es =
     list_all (\<lambda>(key, vs).
        if startsWith key ''#'' \<and> length key = 2 then tagSatisfied event [key ! 1] vs else True) es"
proof (induction es)
  case Nil
  show ?case by simp
next
  case (Cons p es)
  obtain key vals where p: "p = (key, vals)" by (cases p)
  show ?case unfolding p tagFilters_Cons Cons.IH by simp
qed

text \<open>
  Claim C8, as stated: a named tag constraint holds exactly when the event has a tag of
  that name with one of the values, and constraints on distinct names are a conjunction.
  For the name \<open>foo\<close> this fails: the text note, tagged \<open>[['p','alice']]\<close>, has no
  tag \<open>foo\<close> and matches \<open>{'#foo':['x']}\<close>, and it matches
  \<open>{'#p':['alice'],'#foo':['x']}\<close> with one of the two constraints unsatisfied.
\<close>

theorem long_tag_name_counterexample:
  "\<not> tagSatisfied textNote ''foo'' [''x''] \<and>
   matchesFilter textNote (emptyFilter\<lparr>entries := [(''#foo'', [''x''])]\<rparr>) \<and>
   tagSatisfied textNote ''p'' [''alice''] \<and>
   matchesFilter textNote
     (emptyFilter\<lparr>entries := [(''#p'', [''alice'']), (''#foo'', [''x''])]\<rparr>)"
  by code_simp

text \<open>
  Claim C8, amended to tag names of one character, the ones line 46 lets through. Tag
  constraints are a disjunction inside one tag name and a conjunction across names. An
  event tagged \<open>[['p',X],['e',Y]]\<close> matches \<open>{'#p':[X]}\<close>, \<open>{'#e':[Y]}\<close> and
  \<open>{'#p':[X],'#e':[Y]}\<close>, and does not match \<open>{'#p':[Z]}\<close> when \<open>Z\<close> is not \<open>X\<close>.
  One constraint \<open>#c\<close>, on a tag name \<open>c\<close> of one character, holds exactly when the
  event has a tag whose first element is \<open>c\<close> and whose second element is among the
  values (\<open>tagSatisfied\<close>); a filter with several of them matches exactly when the
  rest of the filter matches and every one of them holds. For any filter, the entries
  that count are those whose key is \<open>#\<close> and one character, and the filter matches
  exactly when the rest of it matches and each of these holds.
\<close>

theorem tag_constraints_or_within_and_across:
  assumes "Z \<noteq> X"
  shows "matchesFilter (event\<lparr>tags := [[''p'', X], [''e'', Y]]\<rparr>)
           (emptyFilter\<lparr>entries := [(''#p'', [X])]\<rparr>) \<and>
         matchesFilter (event\<lparr>tags := [[''p'', X], [''e'', Y]]\<rparr>)
           (emptyFilter\<lparr>entries := [(''#e'', [Y])]\<rparr>) \<and>
         matchesFilter (event\<lparr>tags := [[''p'', X], [''e'', Y]]\<rparr>)
           (emptyFilter\<lparr>entries := [(''#p'', [X]), (''#e'', [Y])]\<rparr>) \<and>
         \<not> matchesFilter (event\<lparr>tags := [[''p'', X], [''e'', Y]]\<rparr>)
           (emptyFilter\<lparr>entries := [(''#p'', [Z])]\<rparr>) \<and>
         matchesFilter ev (emptyFilter\<lparr>entries := [([CHR ''#'', c], vals)]\<rparr>) =
           tagSatisfied ev [c] vals \<and>
         matchesFilter ev (f\<lparr>entries := map (\<lambda>(c, vs). ([CHR ''#'', c], vs)) cs\<rparr>) =
           (matchesFilter ev (f\<lparr>entries := []\<rparr>) \<and> list_all (\<lambda>(c, vs). tagSatisfied ev [c] vs) cs) \<and>
         matchesFilter ev (f\<lparr>entries := es\<rparr>) =
           (matchesFilter ev (f\<lparr>entries := []\<rparr>) \<and>
            list_all (\<lambda>(key, vs).
              if startsWith key ''#'' \<and> length key = 2 then tagSatisfied ev [key ! 1] vs
              else True) es)"
proof -
  let ?e = "event\<lparr>tags := [[''p'', X], [''e'', Y]]\<rparr>"
  have sw: "startsWith [CHR ''#'', d] ''#''" for d by (simp add: startsWith_def)
  have one: "tagFilters ev [([CHR ''#'', c], vals)] = tagSatisfied ev [c] vals"
    using sw by (simp add: tagFilters_Cons del: tagFilters.simps(2))
  have sat: "tagSatisfied ?e ''p'' [X]" "tagSatisfied ?e ''e'' [Y]" "\<not> tagSatisfied ?e ''p'' [Z]"
    using assms by (simp_all add: tagSatisfied_def nth_opt_def)
  have "tagFilters ?e [(''#p'', [X])]" "tagFilters ?e [(''#e'', [Y])]"
    "tagFilters ?e [(''#p'', [X]), (''#e'', [Y])]" "\<not> tagFilters ?e [(''#p'', [Z])]"
    using sat sw by (simp_all add: tagFilters_Cons del: tagFilters.simps(2))
  moreover have "matchesFilter ev (f\<lparr>entries := map (\<lambda>(c, vs). ([CHR ''#'', c], vs)) cs\<rparr>) =
      (matchesFilter ev (f\<lparr>entries := []\<rparr>) \<and> list_all (\<lambda>(c, vs). tagSatisfied ev [c] vs) cs)"
    using matchesFilter_entries [where event = ev and f = f
        and es = "map (\<lambda>(c, vs). ([CHR ''#'', c], vs)) cs"]
    unfolding tagFilters_all by blast
  moreover have "matchesFilter ev (f\<lparr>entries := es\<rparr>) =
      (matchesFilter ev (f\<lparr>entries := []\<rparr>) \<and>
       list_all (\<lambda>(key, vs).
         if startsWith key ''#'' \<and> length key = 2 then tagSatisfied ev [key ! 1] vs
         else True) es)"
    using matchesFilter_entries [where event = ev and f = f and es = es]
    unfolding tagFilters_list_all by blast
  ultimately show ?thesis
    unfolding matchesFilter_tags_only using one by blast
qed

theorem tag_constraints_or_within_and_across_witness:
  "''zed'' \<noteq> ''alice'' \<and>
   matchesFilter (textNote\<lparr>tags := [[''p'', ''alice''], [''e'', ''aa'']]\<rparr>)
     (emptyFilter\<lparr>entries := [(''#p'', [''alice'']), (''#e'', [''aa''])]\<rparr>) \<and>
   \<not> matchesFilter (textNote\<lparr>tags := [[''p'', ''alice''], [''e'', ''aa'']]\<rparr>)
     (emptyFilter\<lparr>entries := [(''#p'', [''zed''])]\<rparr>) \<and>
   matchesFilter textNote (emptyFilter\<lparr>entries := [(''#p'', [''zed'', ''alice''])]\<rparr>) =
     tagSatisfied textNote ''p'' [''zed'', ''alice'']"
proof -
  have h: "''zed'' \<noteq> ''alice''" by simp
  show ?thesis
    using h tag_constraints_or_within_and_across [OF h, where event = textNote and Y = "''aa''"
        and ev = textNote and c = "CHR ''p''" and vals = "[''zed'', ''alice'']"]
    by blast
qed

text \<open>
  Claim C10. An entry of the filter whose key is \<open>#\<close> followed by a name of more than
  one character (\<open>#foo\<close>) is skipped by \<open>matchesFilter\<close>: the filter matches the same
  events with the entry and without it, and a filter that has nothing else matches
  every event.
\<close>

theorem long_tag_keys_ignored:
  assumes "1 < length name"
  shows "matchesFilter event (f\<lparr>entries := es1 @ (CHR ''#'' # name, vals) # es2\<rparr>) =
           matchesFilter event (f\<lparr>entries := es1 @ es2\<rparr>) \<and>
         matchesFilter event (emptyFilter\<lparr>entries := [(CHR ''#'' # name, vals)]\<rparr>)"
proof -
  have skip: "tagFilters event ((CHR ''#'' # name, vals) # es) = tagFilters event es" for es
    using assms by simp
  show ?thesis
    by (simp add: matchesFilter_def tagFilters_append skip emptyFilter_def del: tagFilters.simps(2))
qed

theorem long_tag_keys_ignored_witness:
  "(1::nat) < length ''foo'' \<and>
   matchesFilter textNote (emptyFilter\<lparr>entries := [(''#foo'', [''nothing''])]\<rparr>)"
proof -
  have h: "(1::nat) < length ''foo''" by simp
  show ?thesis
    using h long_tag_keys_ignored [OF h, where event = textNote and vals = "[''nothing'']"]
    by simp
qed

subsection \<open>The time bounds\<close>

text \<open>
  What \<open>since\<close> and \<open>until\<close> do: a bound that is missing or 0 constrains nothing, any
  other bound is inclusive.
\<close>

lemma matchesFilter_bounds:
  "matchesFilter event f =
     (matchesFilter event (f\<lparr>since := None, until := None\<rparr>) \<and>
      (case since f of None \<Rightarrow> True | Some s \<Rightarrow> s = 0 \<or> s \<le> created_at event) \<and>
      (case until f of None \<Rightarrow> True | Some u \<Rightarrow> u = 0 \<or> created_at event \<le> u))"
  by (auto simp: matchesFilter_def split: option.splits)

text \<open>
  Claim C6. The claim is that a filter with an \<open>until\<close> bound matches an event only if
  \<open>created_at \<le> until\<close>. \<open>filter.until && ...\<close> on line 42 takes the bound 0 for a
  missing one: the filter \<open>{until: 0}\<close> matches the text note created at 1700, while
  \<open>{until: 1}\<close> does not.
\<close>

theorem until_zero_is_no_bound:
  "matchesFilter textNote (emptyFilter\<lparr>until := Some 0\<rparr>) \<and> \<not> created_at textNote \<le> 0 \<and>
   \<not> matchesFilter textNote (emptyFilter\<lparr>until := Some 1\<rparr>)"
  by code_simp

section \<open>Properties of clear\<close>

text \<open>
  Claim C9. \<open>clear\<close> empties the store, so that \<open>getEvents\<close> returns nothing with or
  without a filter, and leaves the subscription table (and the transport) as it was.
\<close>

theorem clear_resets_store_only:
  "getEvents None (clear s) = [] \<and> getEvents (Some f) (clear s) = [] \<and>
   events (clear s) = [] \<and> subscriptions (clear s) = subscriptions s \<and>
   wire (clear s) = wire s \<and> closed (clear s) = closed s \<and>
   throwing (clear s) = throwing s"
  by (simp add: clear_def getEvents_def)

section \<open>Properties of the event store\<close>

subsection \<open>What storeEvent does to a store with one entry for each id\<close>

lemma fold_delete_filter:
  "fold (\<lambda>(i, x) m. if P x then AList.delete i m else m) xs m =
     filter (\<lambda>(j, y). j \<notin> fst ` {p \<in> set xs. P (snd p)}) m"
proof (induction xs arbitrary: m)
  case Nil
  show ?case by simp
next
  case (Cons p xs)
  obtain i x where p: "p = (i, x)" by (cases p)
  show ?case
  proof (cases "P x")
    case True
    then have D: "fst ` {q \<in> set ((i, x) # xs). P (snd q)} = insert i (fst ` {q \<in> set xs. P (snd q)})"
      by force
    show ?thesis
      unfolding p D using True by (auto simp: Cons.IH AList.delete_eq intro!: filter_cong)
  next
    case False
    then have D: "fst ` {q \<in> set ((i, x) # xs). P (snd q)} = fst ` {q \<in> set xs. P (snd q)}"
      by force
    show ?thesis
      unfolding p D using False by (simp add: Cons.IH)
  qed
qed

text \<open>The loop removes exactly the entries that line 88 selects.\<close>

lemma removeOlder_filter:
  assumes "distinct (map fst evs)"
  shows "removeOlder rKey event evs = filter (\<lambda>(i, x). \<not> notNewer rKey event x) evs"
proof -
  have "removeOlder rKey event evs =
      filter (\<lambda>(j, y). j \<notin> fst ` {p \<in> set evs. notNewer rKey event (snd p)}) evs"
    unfolding removeOlder_def by (rule fold_delete_filter)
  also have "\<dots> = filter (\<lambda>(i, x). \<not> notNewer rKey event x) evs"
  proof (rule filter_cong [OF refl])
    fix q assume q: "q \<in> set evs"
    obtain j y where jy: "q = (j, y)" by (cases q)
    have "j \<in> fst ` {p \<in> set evs. notNewer rKey event (snd p)} \<longleftrightarrow> notNewer rKey event y"
    proof
      assume "j \<in> fst ` {p \<in> set evs. notNewer rKey event (snd p)}"
      then obtain y' where "(j, y') \<in> set evs" "notNewer rKey event y'" by auto
      then show "notNewer rKey event y"
        using eq_key_imp_eq_value [OF assms, of j y' y] q jy by simp
    next
      assume "notNewer rKey event y"
      then show "j \<in> fst ` {p \<in> set evs. notNewer rKey event (snd p)}"
        using q jy by force
    qed
    then show "(case q of (j, y) \<Rightarrow> j \<notin> fst ` {p \<in> set evs. notNewer rKey event (snd p)}) =
               (case q of (i, x) \<Rightarrow> \<not> notNewer rKey event x)"
      unfolding jy by simp
  qed
  finally show ?thesis .
qed

lemma replaceableKey_nonempty: "replaceableKey event = Some k \<Longrightarrow> k \<noteq> []"
  by (auto simp: replaceableKey_def split: option.splits if_splits)

lemma update_new: "\<not> has m k \<Longrightarrow> AList.update k v m = m @ [(k, v)]"
  by (induction m) (auto simp: has_def)

text \<open>A regular event: the second submission of an id is refused and changes nothing.\<close>

lemma storeEvent_regular:
  assumes "replaceableKey event = None"
  shows "storeEvent event evs =
           (if has evs (id_ev event) then (False, evs) else (True, evs @ [(id_ev event, event)]))"
  using assms by (simp add: storeEvent_def update_new)

text \<open>
  A replaceable event: the entries of its key that are not newer go first, and the test
  for its id is made on what is left.
\<close>

lemma storeEvent_replaceable:
  assumes "replaceableKey event = Some rKey" and "distinct (map fst evs)"
  shows "storeEvent event evs =
           (if has (filter (\<lambda>(i, x). \<not> notNewer rKey event x) evs) (id_ev event)
            then (False, filter (\<lambda>(i, x). \<not> notNewer rKey event x) evs)
            else (True, filter (\<lambda>(i, x). \<not> notNewer rKey event x) evs @ [(id_ev event, event)]))"
  using assms replaceableKey_nonempty [OF assms(1)]
  by (simp add: storeEvent_def removeOlder_filter update_new)

lemma storeEvent_distinct:
  assumes "distinct (map fst evs)"
  shows "distinct (map fst (snd (storeEvent event evs)))"
proof (cases "replaceableKey event")
  case None
  then show ?thesis using assms by (simp add: storeEvent_regular has_def)
next
  case (Some rKey)
  then show ?thesis
    using assms by (simp add: storeEvent_replaceable has_def distinct_map_filter)
qed

text \<open>
  An event that arrives after a newer one of its key is stored beside it: the loop only
  looks for entries to delete, and nothing refuses the older event.
\<close>

lemma older_arrival_kept_beside_newer:
  assumes "replaceableKey event = Some rKey" and "distinct (map fst evs)"
    and "\<not> has evs (id_ev event)"
    and "(i, newer) \<in> set evs" and "created_at event < created_at newer"
  shows "fst (storeEvent event evs) = True \<and>
         (i, newer) \<in> set (snd (storeEvent event evs)) \<and>
         (id_ev event, event) \<in> set (snd (storeEvent event evs))"
proof -
  have "\<not> has (filter (\<lambda>(i, x). \<not> notNewer rKey event x) evs) (id_ev event)"
    using assms(3) by (auto simp: has_def)
  moreover have "\<not> notNewer rKey event newer" using assms(5) by (simp add: notNewer_def)
  ultimately show ?thesis
    using assms(4) by (auto simp: storeEvent_replaceable [OF assms(1,2)])
qed

text \<open>
  A replaceable event that is already stored is not newer than itself: the loop deletes
  the stored copy before line 95 looks for the id, and the event is accepted again.
\<close>

lemma replaceable_duplicate_reaccepted:
  assumes "replaceableKey event = Some rKey" and "distinct (map fst evs)"
    and "(id_ev event, event) \<in> set evs"
  shows "fst (storeEvent event evs) = True"
proof -
  have "\<not> has (filter (\<lambda>(i, x). \<not> notNewer rKey event x) evs) (id_ev event)"
  proof
    assume "has (filter (\<lambda>(i, x). \<not> notNewer rKey event x) evs) (id_ev event)"
    then obtain x where x: "(id_ev event, x) \<in> set evs" "\<not> notNewer rKey event x"
      by (auto simp: has_def)
    then have "x = event" using eq_key_imp_eq_value [OF assms(2) x(1) assms(3)] by simp
    then show False using x(2) assms(1) by (simp add: notNewer_def)
  qed
  then show ?thesis by (simp add: storeEvent_replaceable [OF assms(1,2)])
qed

subsection \<open>Supersession and idempotence\<close>

text \<open>
  Claim C1. The claim is that the store holds one event for each replaceable key, the
  newest, whatever the order of submission; for two versions of one task, created at
  1000 and at 2000, a query of their key is to return the second alone. Submitted oldest
  first they do leave the second alone. Submitted newest first, both stay: the query
  returns the two of them.
\<close>

theorem supersession_fails_newest_first:
  "replaceableKey task_v1 = Some ''30950:alice:task-1'' \<and>
   replaceableKey task_v2 = Some ''30950:alice:task-1'' \<and>
   getEvents (Some taskFilter) (snd (inject task_v2 (snd (inject task_v1 newRelay))))
     = [task_v2] \<and>
   getEvents (Some taskFilter) (snd (inject task_v1 (snd (inject task_v2 newRelay))))
     = [task_v2, task_v1]"
  by code_simp

text \<open>
  Claim C2. The claim is that submitting an event whose id is stored returns false and
  changes nothing. A profile (kind 0) submitted twice is accepted twice: the second
  \<open>inject\<close> returns true as the first did, the store holding one copy throughout.
\<close>

theorem replaceable_duplicate_accepted_again:
  "fst (inject profile newRelay) = True \<and>
   has (events (snd (inject profile newRelay))) (id_ev profile) \<and>
   fst (inject profile (snd (inject profile newRelay))) = True \<and>
   getEvents None (snd (inject profile (snd (inject profile newRelay)))) = [profile]"
  by code_simp

section \<open>Properties of the transport verbs\<close>

subsection \<open>Sending and broadcasting\<close>

lemma send_open:
  "ws \<notin> set (throwing s) \<Longrightarrow> ws \<notin> set (closed s) \<Longrightarrow>
     send ws m s = (Returned, s\<lparr>wire := wire s @ [(ws, m)]\<rparr>)"
  by (simp add: send_def)

lemma snd_send: "snd (send ws m s) = s\<lparr>wire := wire s @ reaching s [(ws, m)]\<rparr>"
  by (simp add: send_def reaching_def)

lemma send_nothrow:
  "throwing s = [] \<Longrightarrow> send ws m s = (Returned, s\<lparr>wire := wire s @ reaching s [(ws, m)]\<rparr>)"
  by (simp add: send_def reaching_def)

lemma reaching_Nil: "reaching s [] = []"
  by (simp add: reaching_def)

lemma reaching_append: "reaching s (xs @ ys) = reaching s xs @ reaching s ys"
  by (simp add: reaching_def)

lemma reaching_wire: "reaching (s\<lparr>wire := w\<rparr>) ms = reaching s ms"
  by (simp add: reaching_def)

lemma reaching_events: "reaching (s\<lparr>events := e\<rparr>) ms = reaching s ms"
  by (simp add: reaching_def)

lemma reaching_open:
  "ws \<notin> set (throwing s) \<Longrightarrow> ws \<notin> set (closed s) \<Longrightarrow>
     reaching s ((ws, m) # ms) = (ws, m) # reaching s ms"
  by (simp add: reaching_def)

lemma deliveries_Nil: "deliveries event [] = []"
  by (simp add: deliveries_def)

lemma deliveries_Cons:
  "deliveries event ((c, m) # subs) = deliveries event [(c, m)] @ deliveries event subs"
  by (simp add: deliveries_def)

lemma deliveries_one_Nil: "deliveries event [(c, [])] = []"
  by (simp add: deliveries_def)

lemma deliveries_one_Cons:
  "deliveries event [(c, (subId, filters) # m)] =
     (if matchesFilters event filters then [(c, EVENT_sub subId event)] else [])
     @ deliveries event [(c, m)]"
  by (simp add: deliveries_def)

text \<open>
  The broadcast of \<open>handleMessage\<close> when no socket throws: every delivery owed to a
  socket that is not closed is made, in the order of the table.
\<close>

lemma sendToSubs_nothrow:
  "throwing s = [] \<Longrightarrow>
     sendToSubs event c m s =
       (Returned, s\<lparr>wire := wire s @ reaching s (deliveries event [(c, m)])\<rparr>)"
proof (induction m arbitrary: s)
  case Nil
  show ?case by (simp add: deliveries_one_Nil reaching_def)
next
  case (Cons p m)
  obtain subId filters where p: "p = (subId, filters)" by (cases p)
  have nt: "throwing (s\<lparr>wire := w\<rparr>) = []" for w using Cons.prems by simp
  show ?case
    unfolding p
    by (simp add: send_nothrow [OF Cons.prems] Cons.IH [OF nt] Cons.IH [OF Cons.prems]
        deliveries_one_Cons reaching_append reaching_wire reaching_Nil)
qed

lemma broadcast_nothrow:
  "throwing s = [] \<Longrightarrow>
     broadcast event subs s =
       (Returned, s\<lparr>wire := wire s @ reaching s (deliveries event subs)\<rparr>)"
proof (induction subs arbitrary: s)
  case Nil
  show ?case by (simp add: deliveries_Nil reaching_def)
next
  case (Cons p subs)
  obtain c m where p: "p = (c, m)" by (cases p)
  have nt: "throwing (s\<lparr>wire := w\<rparr>) = []" for w using Cons.prems by simp
  show ?case
    unfolding p deliveries_Cons [of event c m subs]
    by (simp add: sendToSubs_nothrow [OF Cons.prems] Cons.IH [OF nt] reaching_append
        reaching_wire)
qed

text \<open>
  The broadcast of \<open>inject\<close>, whatever the sockets do: every delivery owed to a
  socket that is neither closed nor throwing is made.
\<close>

lemma sendToSubsCaught_wire:
  "sendToSubsCaught event c m s = s\<lparr>wire := wire s @ reaching s (deliveries event [(c, m)])\<rparr>"
proof (induction m arbitrary: s)
  case Nil
  show ?case by (simp add: deliveries_one_Nil reaching_def)
next
  case (Cons p m)
  obtain subId filters where p: "p = (subId, filters)" by (cases p)
  show ?case
    unfolding p
    by (simp add: Cons.IH snd_send deliveries_one_Cons reaching_append reaching_wire
        reaching_Nil)
qed

lemma broadcastCaught_wire:
  "broadcastCaught event subs s = s\<lparr>wire := wire s @ reaching s (deliveries event subs)\<rparr>"
proof (induction subs arbitrary: s)
  case Nil
  show ?case by (simp add: deliveries_Nil reaching_def)
next
  case (Cons p subs)
  obtain c m where p: "p = (c, m)" by (cases p)
  show ?case
    unfolding p deliveries_Cons [of event c m subs]
    by (simp add: Cons.IH sendToSubsCaught_wire reaching_append reaching_wire)
qed

lemma inject_result:
  "inject event s =
     (fst (storeEvent event (events s)),
      s\<lparr>events := snd (storeEvent event (events s)),
        wire := wire s @
          (if fst (storeEvent event (events s))
           then reaching s (deliveries event (subscriptions s)) else [])\<rparr>)"
  by (cases "storeEvent event (events s)")
    (simp add: inject_def broadcastCaught_wire reaching_events)

subsection \<open>EVENT: validity, acknowledgment and broadcast\<close>

text \<open>The check of line 125 tests the id and the pubkey, and nothing of the kind.\<close>

lemma invalidEvent_Some:
  "invalidEvent (Some event) = (falsyStr (id_ev event) \<or> falsyStr (pubkey event))"
  by (simp add: invalidEvent_def)

lemma invalid_event_rejected:
  assumes "invalidEvent ev" and "ws \<notin> set (throwing s)" and "ws \<notin> set (closed s)"
  shows "handleMessage ws (EVENT_pub ev) s =
           (Returned, s\<lparr>wire := wire s @ [(ws, OK (idOrEmpty ev) False ''Invalid event'')]\<rparr>)"
  using assms by (simp add: handleEVENT_def send_open)

lemma valid_event_id:
  "\<not> invalidEvent (Some event) \<Longrightarrow> id_ev event = Some (idOrEmpty (Some event))"
  by (cases "id_ev event") (simp_all add: invalidEvent_def falsyStr_def idOrEmpty_def)

text \<open>
  The \<open>EVENT\<close> verb on an event that passes the check, when no socket throws: the
  event goes through \<open>storeEvent\<close>, \<open>OK\<close> with \<open>true\<close> goes to the submitter, and
  the deliveries follow when \<open>storeEvent\<close> returned true and only then.
\<close>

lemma handleEVENT_nothrow:
  assumes "\<not> invalidEvent (Some event)" and "throwing s = []"
  shows "handleMessage ws (EVENT_pub (Some event)) s =
     (Returned,
      s\<lparr>events := snd (storeEvent event (events s)),
        wire := wire s @
          reaching s ((ws, OK (idOrEmpty (Some event)) True []) #
            (if fst (storeEvent event (events s)) then deliveries event (subscriptions s)
             else []))\<rparr>)"
proof -
  obtain isNew events1 where st: "storeEvent event (events s) = (isNew, events1)"
    by (cases "storeEvent event (events s)")
  let ?s1 = "s\<lparr>events := events1\<rparr>"
  let ?ok = "(ws, OK (idOrEmpty (Some event)) True [])"
  let ?s2 = "?s1\<lparr>wire := wire ?s1 @ reaching ?s1 [?ok]\<rparr>"
  have nt1: "throwing ?s1 = []" using assms(2) by simp
  have nt2: "throwing ?s2 = []" using assms(2) by simp
  have sent: "send ws (OK (idOrEmpty (Some event)) True []) ?s1 = (Returned, ?s2)"
    by (rule send_nothrow [OF nt1])
  have hm: "handleMessage ws (EVENT_pub (Some event)) s =
              (if isNew then broadcast event (subscriptions ?s2) ?s2 else (Returned, ?s2))"
    using assms(1) st sent by (simp add: handleEVENT_def)
  show ?thesis
  proof (cases isNew)
    case True
    then show ?thesis
      unfolding hm st using broadcast_nothrow [OF nt2, of event "subscriptions ?s2"]
      by (simp add: reaching_def)
  next
    case False
    then show ?thesis
      unfolding hm st by (simp add: reaching_def)
  qed
qed

text \<open>
  Were a subscriber's socket to throw, the \<open>EVENT\<close> verb would stop at it, where
  \<open>inject\<close> goes on: this is why the lemma above asks that no socket throws.
\<close>

lemma uncaught_throw_would_stop_broadcast:
  "handleMessage 3 (EVENT_pub (Some textNote)) firstThrows
     = (Threw, firstThrows\<lparr>events := [(Some ''dd'', textNote)],
          wire := [(3, OK ''dd'' True [])]\<rparr>)"
  by code_simp

text \<open>
  Claim C5. A delivery that fails for one subscriber keeps the event from no other
  subscriber and does not change what the submission returns. \<open>inject\<close> returns what
  \<open>storeEvent\<close> returns, whatever the sockets do, and when that is true it makes
  every delivery owed to a socket that is neither closed nor throwing. The \<open>EVENT\<close>
  verb, on the sockets of the server, none of which throws, acknowledges and makes every
  delivery owed to a socket that is not closed. A message is among those that reach
  (\<open>reaching\<close>) by the state of its own socket alone.
\<close>

theorem delivery_failure_isolated:
  "fst (inject event s) = fst (storeEvent event (events s)) \<and>
   wire (snd (inject event s)) =
     wire s @ (if fst (storeEvent event (events s))
               then reaching s (deliveries event (subscriptions s)) else []) \<and>
   (throwing s = [] \<longrightarrow> \<not> invalidEvent (Some event) \<longrightarrow>
      wire (snd (handleMessage ws (EVENT_pub (Some event)) s)) =
        wire s @ reaching s ((ws, OK (idOrEmpty (Some event)) True []) #
          (if fst (storeEvent event (events s)) then deliveries event (subscriptions s)
           else []))) \<and>
   ((c, m) \<in> set (reaching s ms) \<longleftrightarrow>
      (c, m) \<in> set ms \<and> c \<notin> set (throwing s) \<and> c \<notin> set (closed s))"
proof -
  have "throwing s = [] \<longrightarrow> \<not> invalidEvent (Some event) \<longrightarrow>
      wire (snd (handleMessage ws (EVENT_pub (Some event)) s)) =
        wire s @ reaching s ((ws, OK (idOrEmpty (Some event)) True []) #
          (if fst (storeEvent event (events s)) then deliveries event (subscriptions s)
           else []))"
    using handleEVENT_nothrow [of event s ws] by simp
  moreover have "(c, m) \<in> set (reaching s ms) \<longleftrightarrow>
      (c, m) \<in> set ms \<and> c \<notin> set (throwing s) \<and> c \<notin> set (closed s)"
    by (auto simp: reaching_def)
  ultimately show ?thesis
    unfolding inject_result [of event s] by simp
qed

theorem delivery_failure_isolated_witness:
  "fst (inject textNote firstThrows) = True \<and>
   wire (snd (inject textNote firstThrows)) = [(2, EVENT_sub ''b'' textNote)] \<and>
   fst (inject textNote twoSubscribers) = True \<and>
   wire (snd (inject textNote twoSubscribers)) = [(2, EVENT_sub ''b'' textNote)] \<and>
   throwing twoSubscribers = [] \<and> \<not> invalidEvent (Some textNote) \<and>
   deliveries textNote (subscriptions twoSubscribers)
     = [(1, EVENT_sub ''a'' textNote), (2, EVENT_sub ''b'' textNote)] \<and>
   wire (snd (handleMessage 3 (EVENT_pub (Some textNote)) twoSubscribers))
     = [(3, OK ''dd'' True []), (2, EVENT_sub ''b'' textNote)]"
proof -
  have h1: "throwing twoSubscribers = []" by code_simp
  have h2: "\<not> invalidEvent (Some textNote)" by code_simp
  have d: "deliveries textNote (subscriptions twoSubscribers)
             = [(1, EVENT_sub ''a'' textNote), (2, EVENT_sub ''b'' textNote)]"
    by code_simp
  have st1: "fst (storeEvent textNote (events firstThrows)) = True" by code_simp
  have st2: "fst (storeEvent textNote (events twoSubscribers)) = True" by code_simp
  have r1: "wire firstThrows @ reaching firstThrows (deliveries textNote (subscriptions firstThrows))
              = [(2, EVENT_sub ''b'' textNote)]"
    by code_simp
  have r2: "wire twoSubscribers @
              reaching twoSubscribers (deliveries textNote (subscriptions twoSubscribers))
              = [(2, EVENT_sub ''b'' textNote)]"
    by code_simp
  have r3: "wire twoSubscribers @
              reaching twoSubscribers ((3, OK (idOrEmpty (Some textNote)) True []) #
                deliveries textNote (subscriptions twoSubscribers))
              = [(3, OK ''dd'' True []), (2, EVENT_sub ''b'' textNote)]"
    by code_simp
  show ?thesis
    using delivery_failure_isolated [of textNote firstThrows 3 2 "EOSE []" "[]"]
      delivery_failure_isolated [of textNote twoSubscribers 3 2 "EOSE []" "[]"]
      h1 h2 d st1 st2 r1 r2 r3
    by simp
qed

text \<open>
  Claim C7. The claim is that an event with no id, no pubkey or no kind is refused with
  a negative acknowledgment, the store untouched. An event with an id and a pubkey and
  no kind is stored and acknowledged with \<open>true\<close>: \<open>!event.kind === undefined\<close> is
  false for every event.
\<close>

theorem event_without_kind_stored:
  "kind kindless = None \<and>
   handleMessage 3 (EVENT_pub (Some kindless)) newRelay
     = (Returned, newRelay\<lparr>events := [(Some ''ee'', kindless)], wire := [(3, OK ''ee'' True [])]\<rparr>)"
  by code_simp

text \<open>
  Claim C3, as stated: the acknowledgment of a duplicate carries \<open>false\<close>. The text
  note sent twice on connection 3 is stored by the first message, and both messages are
  acknowledged with \<open>true\<close>.
\<close>

theorem duplicate_ack_counterexample:
  "has (events (snd (handleMessage 3 (EVENT_pub (Some textNote)) newRelay))) (id_ev textNote) \<and>
   wire (snd (handleMessage 3 (EVENT_pub (Some textNote))
           (snd (handleMessage 3 (EVENT_pub (Some textNote)) newRelay))))
     = [(3, OK ''dd'' True []), (3, OK ''dd'' True [])]"
  by code_simp

text \<open>
  Claim C3, amended. For every event that passes the check of line 125, sent on an
  open connection of a relay none of whose sockets throws, the \<open>EVENT\<close> verb returns,
  the store is what \<open>storeEvent\<close> makes of it, and the relay answers \<open>OK\<close> with the
  event's id and \<open>true\<close>, whether the id was stored already or not. What
  \<open>storeEvent\<close> returns decides the broadcast and nothing else: when it is true the
  acknowledgment is followed by every delivery owed to a socket that is not closed, and
  when it is false by nothing.
\<close>

theorem event_ack_always_true:
  assumes "\<not> invalidEvent (Some event)" and "throwing s = []" and "ws \<notin> set (closed s)"
  shows "id_ev event = Some (idOrEmpty (Some event)) \<and>
         handleMessage ws (EVENT_pub (Some event)) s =
           (Returned,
            s\<lparr>events := snd (storeEvent event (events s)),
              wire := wire s @ (ws, OK (idOrEmpty (Some event)) True []) #
                (if fst (storeEvent event (events s))
                 then reaching s (deliveries event (subscriptions s)) else [])\<rparr>)"
proof -
  have "ws \<notin> set (throwing s)" using assms(2) by simp
  then have "reaching s ((ws, OK (idOrEmpty (Some event)) True []) # ms) =
               (ws, OK (idOrEmpty (Some event)) True []) # reaching s ms" for ms
    using assms(3) by (rule reaching_open)
  then show ?thesis
    using handleEVENT_nothrow [OF assms(1,2), of ws] valid_event_id [OF assms(1)]
    by (simp add: reaching_def)
qed

theorem event_ack_always_true_witness:
  "\<not> invalidEvent (Some textNote) \<and> throwing twoSubscribers = [] \<and>
   3 \<notin> set (closed twoSubscribers) \<and>
   \<not> has (events twoSubscribers) (id_ev textNote) \<and>
   handleMessage 3 (EVENT_pub (Some textNote)) twoSubscribers =
     (Returned, twoSubscribers\<lparr>events := [(Some ''dd'', textNote)],
        wire := [(3, OK ''dd'' True []), (2, EVENT_sub ''b'' textNote)]\<rparr>) \<and>
   throwing (snd (inject textNote twoSubscribers)) = [] \<and>
   3 \<notin> set (closed (snd (inject textNote twoSubscribers))) \<and>
   has (events (snd (inject textNote twoSubscribers))) (id_ev textNote) \<and>
   handleMessage 3 (EVENT_pub (Some textNote)) (snd (inject textNote twoSubscribers)) =
     (Returned, twoSubscribers\<lparr>events := [(Some ''dd'', textNote)],
        wire := [(2, EVENT_sub ''b'' textNote), (3, OK ''dd'' True [])]\<rparr>)"
proof -
  let ?s = "snd (inject textNote twoSubscribers)"
  have h1: "\<not> invalidEvent (Some textNote)" by code_simp
  have h2: "throwing twoSubscribers = []" by code_simp
  have h3: "3 \<notin> set (closed twoSubscribers)" by code_simp
  have h4: "\<not> has (events twoSubscribers) (id_ev textNote)" by code_simp
  have k2: "throwing ?s = []" by code_simp
  have k3: "3 \<notin> set (closed ?s)" by code_simp
  have k4: "has (events ?s) (id_ev textNote)" by code_simp
  have new: "twoSubscribers\<lparr>events := snd (storeEvent textNote (events twoSubscribers)),
        wire := wire twoSubscribers @ (3, OK (idOrEmpty (Some textNote)) True []) #
          (if fst (storeEvent textNote (events twoSubscribers))
           then reaching twoSubscribers (deliveries textNote (subscriptions twoSubscribers))
           else [])\<rparr>
      = twoSubscribers\<lparr>events := [(Some ''dd'', textNote)],
          wire := [(3, OK ''dd'' True []), (2, EVENT_sub ''b'' textNote)]\<rparr>"
    by code_simp
  have dup: "?s\<lparr>events := snd (storeEvent textNote (events ?s)),
        wire := wire ?s @ (3, OK (idOrEmpty (Some textNote)) True []) #
          (if fst (storeEvent textNote (events ?s))
           then reaching ?s (deliveries textNote (subscriptions ?s)) else [])\<rparr>
      = twoSubscribers\<lparr>events := [(Some ''dd'', textNote)],
          wire := [(2, EVENT_sub ''b'' textNote), (3, OK ''dd'' True [])]\<rparr>"
    by code_simp
  show ?thesis
    using h1 h2 h3 h4 k2 k3 k4
      event_ack_always_true [OF h1 h2 h3] event_ack_always_true [OF h1 k2 k3]
    unfolding new dup by blast
qed

subsection \<open>REQ: the replay of the backlog\<close>

text \<open>The loop of lines 165 to 171 on an open connection, without and with a limit.\<close>

lemma replay_unbounded:
  "ws \<notin> set (throwing s) \<Longrightarrow> ws \<notin> set (closed s) \<Longrightarrow>
     replay ws subId filters Infinity count evs s =
       (Returned, s\<lparr>wire := wire s @ map (\<lambda>e. (ws, EVENT_sub subId e))
                                      (filter (\<lambda>e. matchesFilters e filters) evs)\<rparr>)"
proof (induction evs arbitrary: count s)
  case Nil
  show ?case by simp
next
  case (Cons e evs)
  have t': "ws \<notin> set (throwing (s\<lparr>wire := w\<rparr>))" for w using Cons.prems by simp
  have c': "ws \<notin> set (closed (s\<lparr>wire := w\<rparr>))" for w using Cons.prems by simp
  show ?case
    by (simp add: send_open [OF Cons.prems] Cons.IH [OF t' c'] Cons.IH [OF Cons.prems])
qed

lemma replay_bounded:
  "ws \<notin> set (throwing s) \<Longrightarrow> ws \<notin> set (closed s) \<Longrightarrow> count < l \<Longrightarrow>
     replay ws subId filters (Fin l) count evs s =
       (Returned, s\<lparr>wire := wire s @ map (\<lambda>e. (ws, EVENT_sub subId e))
          (take (nat (l - count)) (filter (\<lambda>e. matchesFilters e filters) evs))\<rparr>)"
proof (induction evs arbitrary: count s)
  case Nil
  show ?case by simp
next
  case (Cons e evs)
  have t': "ws \<notin> set (throwing (s\<lparr>wire := w\<rparr>))" for w using Cons.prems(1) by simp
  have c': "ws \<notin> set (closed (s\<lparr>wire := w\<rparr>))" for w using Cons.prems(2) by simp
  show ?case
  proof (cases "matchesFilters e filters")
    case False
    then show ?thesis using Cons.IH [OF Cons.prems] by simp
  next
    case True
    show ?thesis
    proof (cases "count + 1 < l")
      case False
      then have "nat (l - count) = Suc 0" using Cons.prems(3) by simp
      then show ?thesis using True False by (simp add: send_open [OF Cons.prems(1,2)])
    next
      case less: True
      then have "nat (l - count) = Suc (nat (l - (count + 1)))" by simp
      then show ?thesis
        using True less by (simp add: send_open [OF Cons.prems(1,2)] Cons.IH [OF t' c' less])
    qed
  qed
qed

lemma replay_no_filters: "replay ws subId [] lim count evs s = (Returned, s)"
  by (induction evs) (simp_all add: matchesFilters_def)

text \<open>The limit of line 160 when no filter declares the limit 0.\<close>

lemma foldl_mathMax_Infinity:
  "foldl (\<lambda>m f. mathMax m (limitOrInfinity f)) Infinity fs = Infinity"
  by (induction fs) simp_all

lemma replayLimit_from:
  "list_all (\<lambda>f. limit f \<noteq> Some 0) fs \<Longrightarrow>
     foldl (\<lambda>m f. mathMax m (limitOrInfinity f)) (Fin a) fs =
       (if list_ex (\<lambda>f. limit f = None) fs then Infinity
        else Fin (fold max (List.map_filter limit fs) a))"
proof (induction fs arbitrary: a)
  case Nil
  show ?case by simp
next
  case (Cons f fs)
  show ?case
  proof (cases "limit f")
    case None
    then have "limitOrInfinity f = Infinity" by (simp add: limitOrInfinity_def)
    then show ?thesis using None by (simp add: foldl_mathMax_Infinity)
  next
    case (Some l)
    then have "l \<noteq> 0" using Cons.prems by simp
    then have "limitOrInfinity f = Fin l" using Some by (simp add: limitOrInfinity_def)
    then show ?thesis
      using Some Cons.IH [of "max a l"] Cons.prems
      by (simp add: max.commute)
  qed
qed

lemma matching_empty: "matching [] s = []"
  by (simp add: matching_def matchesFilters_def)

text \<open>
  The order of the replay: newest first, events of one timestamp in the order of the
  store.
\<close>

lemma sortedNewestFirst_sorted:
  "sorted (map (\<lambda>e. - created_at e) (sortedNewestFirst evs))"
  by (simp add: sortedNewestFirst_def)

lemma sortedNewestFirst_stable:
  "filter (\<lambda>e. created_at e = t) (sortedNewestFirst evs) =
     filter (\<lambda>e. created_at e = t) (map snd evs)"
  using sort_key_stable [of "\<lambda>e. - created_at e" "- t" "map snd evs"]
  by (simp add: sortedNewestFirst_def)

text \<open>
  \<open>REQ\<close> on an open connection, when every limit that a filter declares is 1 or more:
  the subscription is registered, the stored events that match go out newest first, all
  of them when a filter has no limit and as many as the largest limit otherwise, and one
  \<open>EOSE\<close> follows.
\<close>

lemma req_replay_positive_limits:
  assumes "ws \<notin> set (throwing s)" and "ws \<notin> set (closed s)"
    and "list_all (\<lambda>f. case limit f of None \<Rightarrow> True | Some l \<Rightarrow> 1 \<le> l) filters"
  shows "handleMessage ws (REQ subId filters) s =
     (Returned,
      s\<lparr>subscriptions := register ws subId filters (subscriptions s),
        wire := wire s @
          map (\<lambda>e. (ws, EVENT_sub subId e))
            (if list_ex (\<lambda>f. limit f = None) filters then matching filters s
             else take (nat (largestLimit filters)) (matching filters s))
          @ [(ws, EOSE subId)]\<rparr>)"
proof -
  let ?s1 = "s\<lparr>subscriptions := register ws subId filters (subscriptions s)\<rparr>"
  have t1: "ws \<notin> set (throwing ?s1)" using assms(1) by simp
  have c1: "ws \<notin> set (closed ?s1)" using assms(2) by simp
  have t2: "ws \<notin> set (throwing (?s1\<lparr>wire := w\<rparr>))" for w using assms(1) by simp
  have c2: "ws \<notin> set (closed (?s1\<lparr>wire := w\<rparr>))" for w using assms(2) by simp
  have nz: "list_all (\<lambda>f. limit f \<noteq> Some 0) filters"
    using assms(3) by (auto simp: list_all_iff split: option.splits)
  have lim: "replayLimit filters =
      (if list_ex (\<lambda>f. limit f = None) filters then Infinity else Fin (largestLimit filters))"
    unfolding replayLimit_def largestLimit_def Max.set_eq_fold
    using replayLimit_from [OF nz] by simp
  show ?thesis
  proof (cases "list_ex (\<lambda>f. limit f = None) filters")
    case True
    then show ?thesis
      using lim
      by (simp add: handleREQ_def replay_unbounded [OF t1 c1] send_open [OF t2 c2] matching_def)
  next
    case False
    show ?thesis
    proof (cases "0 < largestLimit filters")
      case True
      then show ?thesis
        using lim False
        by (simp add: handleREQ_def replay_bounded [OF t1 c1] send_open [OF t2 c2] matching_def)
    next
      case zero: False
      have "filters = []"
      proof (rule ccontr)
        assume "filters \<noteq> []"
        then obtain f fs where ffs: "filters = f # fs" by (cases filters) auto
        from False ffs obtain l where l: "limit f = Some l" by (cases "limit f") auto
        then have "1 \<le> l" using assms(3) ffs by simp
        moreover have "l \<in> set (0 # List.map_filter limit filters)"
          using l ffs by simp
        then have "l \<le> largestLimit filters"
          unfolding largestLimit_def by (intro Max_ge) auto
        ultimately show False using zero by simp
      qed
      then show ?thesis
        using assms(1,2) by (simp add: handleREQ_def replay_no_filters matching_empty send_def)
    qed
  qed
qed

text \<open>
  Claim C4. The claim is that the replay is capped at the largest limit the filters
  declare. With a note and a task stored, the filter \<open>{limit: 1}\<close> gets the newer of
  the two and \<open>EOSE\<close>; the filter \<open>{limit: 0}\<close> gets both of them, since
  \<open>f.limit || Infinity\<close> on line 160 takes the limit 0 for a missing one.
\<close>

theorem replay_with_limit_zero_unbounded:
  "wire (snd (handleMessage 3 (REQ ''s'' [emptyFilter\<lparr>limit := Some 1\<rparr>])
           (snd (inject textNote (snd (inject task_v1 newRelay))))))
     = [(3, EVENT_sub ''s'' textNote), (3, EOSE ''s'')] \<and>
   wire (snd (handleMessage 3 (REQ ''s'' [emptyFilter\<lparr>limit := Some 0\<rparr>])
           (snd (inject textNote (snd (inject task_v1 newRelay))))))
     = [(3, EVENT_sub ''s'' textNote), (3, EVENT_sub ''s'' task_v1), (3, EOSE ''s'')]"
  by code_simp

end
